theory Spec2Isabelle
  imports Main "HOL-Library.Word" "HOL-Library.List_Lexorder" "HOL-Library.Sublist"
    "HOL-Library.Multiset"
begin

section \<open>Characters, strings and standard algorithms\<close>

text \<open>
  The engine works on \<^verbatim>\<open>std::wstring\<close>.  A wide character is modelled by its code
  point, a natural number; \<^verbatim>\<open>traits_type::lt\<close> is the order of the code points.
  A flag is a \<^verbatim>\<open>char16_t\<close>, a 16-bit word compared unsigned.
\<close>

type_synonym wchar = nat
type_synonym wstring = "wchar list"
type_synonym flag = "16 word"

text \<open>The wide literal \<^verbatim>\<open>L"..."\<close> of an ASCII string.\<close>

definition wstr :: "string \<Rightarrow> wstring" where
  "wstr s = map of_char s"

text \<open>
  \<^verbatim>\<open>std::lower_bound(first, last, x, lt)\<close> and \<^verbatim>\<open>std::upper_bound\<close> return the partition
  point of a range that is partitioned by the comparison: the end of the longest initial
  run of elements \<open>y\<close> with \<open>lt y x\<close> (respectively with \<open>\<not> lt x y\<close>).  The positions are
  offsets from \<open>first\<close>.
\<close>

definition lower_bound :: "('a \<Rightarrow> 'b \<Rightarrow> bool) \<Rightarrow> 'a list \<Rightarrow> 'b \<Rightarrow> nat" where
  "lower_bound lt d x = length (takeWhile (\<lambda>y. lt y x) d)"


text \<open>
  The searches of \<^verbatim>\<open>basic_string\<close> from a position \<open>i\<close>: the first index at or after
  \<open>i\<close> whose character satisfies the test, \<open>None\<close> for \<^verbatim>\<open>npos\<close>.  \<^verbatim>\<open>find(c, i)\<close> tests
  equality with \<open>c\<close>, \<^verbatim>\<open>find_first_of(chars, i)\<close> membership in \<open>chars\<close>.
\<close>

fun find_from :: "('a \<Rightarrow> bool) \<Rightarrow> 'a list \<Rightarrow> nat \<Rightarrow> nat option" where
  "find_from P [] i = None"
| "find_from P (y # ys) i =
     (if i = 0 then (if P y then Some 0 else map_option Suc (find_from P ys 0))
      else map_option Suc (find_from P ys (i - 1)))"

definition find_char_from :: "'a list \<Rightarrow> 'a \<Rightarrow> nat \<Rightarrow> nat option" where
  "find_char_from d c i = find_from (\<lambda>y. y = c) d i"

definition find_char :: "'a list \<Rightarrow> 'a \<Rightarrow> nat option" where
  "find_char d c = find_char_from d c 0"

definition find_first_of :: "'a list \<Rightarrow> 'a list \<Rightarrow> nat \<Rightarrow> nat option" where
  "find_first_of d chars i = find_from (\<lambda>y. y \<in> set chars) d i"

section \<open>String\_Set: the flag set\<close>

text \<open>
  \<^verbatim>\<open>String_Set<CharT>\<close> keeps its elements in the string \<open>d\<close>.  The model of a set is the
  value of \<open>d\<close>; \<^verbatim>\<open>Flag_Set\<close> is \<^verbatim>\<open>String_Set<char16_t>\<close>.
\<close>

type_synonym 'a String_Set = "'a list"
type_synonym Flag_Set = "flag String_Set"

text \<open>\<^verbatim>\<open>sort_uniq\<close>: \<^verbatim>\<open>std::sort\<close> with \<^verbatim>\<open>lt\<close>, then \<^verbatim>\<open>std::unique\<close> with \<^verbatim>\<open>eq\<close>, which keeps
  the first element of every run of equal neighbours.\<close>

definition sort_uniq :: "'a::linorder list \<Rightarrow> 'a String_Set" where
  "sort_uniq d = remdups_adj (sort d)"

text \<open>The constructors and assignments from a string, an iterator range or an
  initializer list all store the elements and call \<^verbatim>\<open>sort_uniq\<close>.\<close>

definition String_Set_of :: "'a::linorder list \<Rightarrow> 'a String_Set" where
  "String_Set_of s = sort_uniq s"

text \<open>\<^verbatim>\<open>insert(value_type x)\<close>: the new storage, the position and whether \<open>x\<close> was
  inserted.\<close>

definition String_Set_insert ::
  "'a::linorder String_Set \<Rightarrow> 'a \<Rightarrow> 'a String_Set \<times> nat \<times> bool" where
  "String_Set_insert d x =
     (let it = lower_bound (<) d x in
      if it \<noteq> length d \<and> d ! it = x then (d, it, False)
      else (take it d @ x # drop it d, it, True))"

text \<open>\<^verbatim>\<open>insert(iterator hint, value_type x)\<close>.  A hint is an iterator of the set, an
  offset of at most \<open>size()\<close>; any other hint is not a call the model describes (\<open>None\<close>).\<close>

definition String_Set_insert_hint ::
  "'a::linorder String_Set \<Rightarrow> nat \<Rightarrow> 'a \<Rightarrow> ('a String_Set \<times> nat) option" where
  "String_Set_insert_hint d hint x =
     (if hint > length d then None
      else if (hint = length d \<or> x < d ! hint) \<and> (hint = 0 \<or> d ! (hint - 1) < x)
        then Some (take hint d @ x # drop hint d, hint)
      else (case String_Set_insert d x of (d', it, _) \<Rightarrow> Some (d', it)))"

text \<open>\<^verbatim>\<open>insert(const Str& s)\<close>, also reached through \<^verbatim>\<open>operator+=\<close>, the range insert and
  the initializer-list insert: append, then \<^verbatim>\<open>sort_uniq\<close>.\<close>

definition String_Set_insert_str :: "'a::linorder String_Set \<Rightarrow> 'a list \<Rightarrow> 'a String_Set" where
  "String_Set_insert_str d s = sort_uniq (d @ s)"

definition String_Set_plus_eq :: "'a::linorder String_Set \<Rightarrow> 'a list \<Rightarrow> 'a String_Set" where
  "String_Set_plus_eq d s = String_Set_insert_str d s"

text \<open>\<^verbatim>\<open>erase(key_type x)\<close>: \<^verbatim>\<open>d.find(x)\<close>, and one character erased there when found.\<close>

definition String_Set_erase :: "'a String_Set \<Rightarrow> 'a \<Rightarrow> 'a String_Set \<times> bool" where
  "String_Set_erase d x =
     (case find_char d x of
        Some i \<Rightarrow> (take i d @ drop (Suc i) d, True)
      | None \<Rightarrow> (d, False))"

text \<open>\<^verbatim>\<open>erase(iterator position)\<close> and \<^verbatim>\<open>erase(iterator first, iterator last)\<close>, on
  iterators of the set.\<close>

definition String_Set_erase_at :: "'a String_Set \<Rightarrow> nat \<Rightarrow> 'a String_Set option" where
  "String_Set_erase_at d position =
     (if position < length d then Some (take position d @ drop (Suc position) d) else None)"

definition String_Set_erase_range :: "'a String_Set \<Rightarrow> nat \<Rightarrow> nat \<Rightarrow> 'a String_Set option" where
  "String_Set_erase_range d i j =
     (if i \<le> j \<and> j \<le> length d then Some (take i d @ drop j d) else None)"

definition String_Set_contains :: "'a String_Set \<Rightarrow> 'a \<Rightarrow> bool" where
  "String_Set_contains d x = (find_char d x \<noteq> None)"

text \<open>A sequence of modifying calls on one set.\<close>

datatype 'a String_Set_op =
    Insert 'a
  | Insert_Hint nat 'a
  | Insert_Str "'a list"
  | Plus_Eq "'a list"
  | Erase 'a
  | Erase_At nat
  | Erase_Range nat nat

fun String_Set_apply :: "'a::linorder String_Set_op \<Rightarrow> 'a String_Set \<Rightarrow> 'a String_Set option" where
  "String_Set_apply (Insert x) d = Some (fst (String_Set_insert d x))"
| "String_Set_apply (Insert_Hint h x) d = map_option fst (String_Set_insert_hint d h x)"
| "String_Set_apply (Insert_Str s) d = Some (String_Set_insert_str d s)"
| "String_Set_apply (Plus_Eq s) d = Some (String_Set_plus_eq d s)"
| "String_Set_apply (Erase x) d = Some (fst (String_Set_erase d x))"
| "String_Set_apply (Erase_At i) d = String_Set_erase_at d i"
| "String_Set_apply (Erase_Range i j) d = String_Set_erase_range d i j"

fun String_Set_run :: "'a::linorder String_Set_op list \<Rightarrow> 'a String_Set \<Rightarrow> 'a String_Set option" where
  "String_Set_run [] d = Some d"
| "String_Set_run (p # ps) d =
     (case String_Set_apply p d of None \<Rightarrow> None | Some d' \<Rightarrow> String_Set_run ps d')"

text \<open>The invariant of the storage: ascending order with no duplicates.\<close>

definition sorted_no_dups :: "'a::linorder list \<Rightarrow> bool" where
  "sorted_no_dups d = sorted_wrt (<) d"

subsection \<open>Facts about the storage\<close>

lemma sorted_no_dups_iff: "sorted_no_dups d \<longleftrightarrow> sorted d \<and> distinct d"
  by (simp add: sorted_no_dups_def strict_sorted_iff)

lemma distinct_remdups_adj_sorted: "sorted (xs :: 'a::linorder list) \<Longrightarrow> distinct (remdups_adj xs)"
  by (induction xs rule: remdups_adj.induct) (auto simp: order.strict_iff_order)

lemma sorted_no_dups_sort_uniq: "sorted_no_dups (sort_uniq s)"
  by (simp add: sorted_no_dups_iff sort_uniq_def distinct_remdups_adj_sorted)

lemma set_sort_uniq: "set (sort_uniq s) = set s"
  by (simp add: sort_uniq_def)

lemma find_from_None: "find_from P d i = None \<longleftrightarrow> (\<forall>k. i \<le> k \<and> k < length d \<longrightarrow> \<not> P (d ! k))"
proof (induction P d i rule: find_from.induct)
  case (1 P i)
  then show ?case by simp
next
  case (2 P y ys i)
  show ?case
  proof (cases "i = 0")
    case True
    with 2 show ?thesis
      by (auto simp: nth_Cons split: nat.splits)
  next
    case False
    with 2 have "find_from P (y # ys) i = None \<longleftrightarrow>
        (\<forall>k. i - 1 \<le> k \<and> k < length ys \<longrightarrow> \<not> P (ys ! k))"
      by simp
    also have "\<dots> \<longleftrightarrow> (\<forall>k. i \<le> k \<and> k < length (y # ys) \<longrightarrow> \<not> P ((y # ys) ! k))"
    proof
      assume h: "\<forall>k. i - 1 \<le> k \<and> k < length ys \<longrightarrow> \<not> P (ys ! k)"
      show "\<forall>k. i \<le> k \<and> k < length (y # ys) \<longrightarrow> \<not> P ((y # ys) ! k)"
      proof (intro allI impI)
        fix k assume k: "i \<le> k \<and> k < length (y # ys)"
        with False obtain k' where "k = Suc k'" by (cases k) auto
        with k h show "\<not> P ((y # ys) ! k)" by auto
      qed
    next
      assume h: "\<forall>k. i \<le> k \<and> k < length (y # ys) \<longrightarrow> \<not> P ((y # ys) ! k)"
      show "\<forall>k. i - 1 \<le> k \<and> k < length ys \<longrightarrow> \<not> P (ys ! k)"
      proof (intro allI impI)
        fix k assume k: "i - 1 \<le> k \<and> k < length ys"
        with False have "i \<le> Suc k \<and> Suc k < length (y # ys)" by auto
        with h have "\<not> P ((y # ys) ! Suc k)" by blast
        then show "\<not> P (ys ! k)" by simp
      qed
    qed
    finally show ?thesis .
  qed
qed

lemma find_from_Some:
  "find_from P d i = Some j \<longleftrightarrow>
     i \<le> j \<and> j < length d \<and> P (d ! j) \<and> (\<forall>k. i \<le> k \<and> k < j \<longrightarrow> \<not> P (d ! k))"
proof (induction P d i arbitrary: j rule: find_from.induct)
  case (1 P i)
  then show ?case by simp
next
  case (2 P y ys i)
  show ?case
  proof (cases "i = 0")
    case i0: True
    show ?thesis
    proof (cases "P y")
      case True
      with i0 show ?thesis by (cases j) auto
    next
      case False
      show ?thesis
      proof (cases j)
        case 0
        with i0 False show ?thesis by auto
      next
        case (Suc j')
        have "(\<forall>k. k < Suc j' \<longrightarrow> \<not> P ((y # ys) ! k)) \<longleftrightarrow> (\<forall>k. k < j' \<longrightarrow> \<not> P (ys ! k))"
          using False by (auto simp: nth_Cons split: nat.splits) 
        with i0 False Suc 2(1) [of j'] show ?thesis by auto
      qed
    qed
  next
    case False
    show ?thesis
    proof (cases j)
      case 0
      with False show ?thesis by auto
    next
      case (Suc j')
      have "(\<forall>k. i \<le> k \<and> k < Suc j' \<longrightarrow> \<not> P ((y # ys) ! k)) \<longleftrightarrow>
            (\<forall>k. i - 1 \<le> k \<and> k < j' \<longrightarrow> \<not> P (ys ! k))"
      proof
        assume h: "\<forall>k. i \<le> k \<and> k < Suc j' \<longrightarrow> \<not> P ((y # ys) ! k)"
        show "\<forall>k. i - 1 \<le> k \<and> k < j' \<longrightarrow> \<not> P (ys ! k)"
        proof (intro allI impI)
          fix k assume "i - 1 \<le> k \<and> k < j'"
          with False have "i \<le> Suc k \<and> Suc k < Suc j'" by auto
          with h have "\<not> P ((y # ys) ! Suc k)" by blast
          then show "\<not> P (ys ! k)" by simp
        qed
      next
        assume h: "\<forall>k. i - 1 \<le> k \<and> k < j' \<longrightarrow> \<not> P (ys ! k)"
        show "\<forall>k. i \<le> k \<and> k < Suc j' \<longrightarrow> \<not> P ((y # ys) ! k)"
        proof (intro allI impI)
          fix k assume k: "i \<le> k \<and> k < Suc j'"
          with False obtain k' where "k = Suc k'" by (cases k) auto
          with k h show "\<not> P ((y # ys) ! k)" by auto
        qed
      qed
      with False Suc 2(2) [of j'] show ?thesis by auto
    qed
  qed
qed

lemma find_char_from_0_None: "find_char_from d c 0 = None \<longleftrightarrow> c \<notin> set d"
  by (auto simp: find_char_from_def find_from_None in_set_conv_nth)

lemma find_char_from_0_Some:
  "find_char_from d c 0 = Some i \<Longrightarrow> i < length d \<and> d ! i = c \<and> c \<notin> set (take i d)"
  by (auto simp: find_char_from_def find_from_Some in_set_conv_nth)

lemma sorted_wrt_less_remove:
  assumes s: "sorted_wrt (<) (d :: 'a::linorder list)" and ij: "i \<le> j"
  shows "sorted_wrt (<) (take i d @ drop j d)"
proof -
  have "sorted_wrt (<) (take i d)" "sorted_wrt (<) (drop j d)"
    using s by (simp_all add: sorted_wrt_take sorted_wrt_drop)
  moreover have "\<forall>x\<in>set (take i d). \<forall>y\<in>set (drop j d). x < y"
  proof (intro ballI)
    fix x y assume "x \<in> set (take i d)" "y \<in> set (drop j d)"
    then obtain a b where a: "a < length (take i d)" "x = take i d ! a"
      and b: "b < length (drop j d)" "y = drop j d ! b"
      by (metis in_set_conv_nth)
    have "a < j + b" "j + b < length d" using a b ij by auto
    with s have "d ! a < d ! (j + b)" by (simp add: sorted_wrt_nth_less)
    with a b show "x < y" by simp
  qed
  ultimately show ?thesis by (simp add: sorted_wrt_append)
qed

lemma lower_bound_le: "lower_bound lt d x \<le> length d"
  by (simp add: lower_bound_def length_takeWhile_le)

lemma take_lower_bound: "take (lower_bound lt d x) d = takeWhile (\<lambda>y. lt y x) d"
  by (simp add: lower_bound_def takeWhile_eq_take [symmetric])

lemma drop_lower_bound: "drop (lower_bound lt d x) d = dropWhile (\<lambda>y. lt y x) d"
  by (simp add: lower_bound_def dropWhile_eq_drop [symmetric])

lemma lower_bound_nth:
  "lower_bound lt d x < length d \<Longrightarrow> \<not> lt (d ! lower_bound lt d x) x"
  unfolding lower_bound_def by (rule nth_length_takeWhile)

lemma sorted_lt_drop_lower_bound:
  assumes s: "sorted_wrt (<) (d :: 'a::linorder list)"
    and ne: "\<not> (lower_bound (<) d x \<noteq> length d \<and> d ! lower_bound (<) d x = x)"
    and y: "y \<in> set (drop (lower_bound (<) d x) d)"
  shows "x < y"
proof -
  let ?n = "lower_bound (<) d x"
  from y obtain k where k: "k < length (drop ?n d)" "y = drop ?n d ! k"
    by (metis in_set_conv_nth)
  then have n: "?n < length d" and yk: "y = d ! (?n + k)" and kk: "?n + k < length d"
    by auto
  from lower_bound_nth [OF n] ne n have "x < d ! ?n" by auto
  moreover have "d ! ?n \<le> y"
  proof (cases k)
    case 0 then show ?thesis using yk by simp
  next
    case (Suc k')
    then have "?n < ?n + k" by simp
    with s kk have "d ! ?n < d ! (?n + k)" by (simp add: sorted_wrt_nth_less)
    then show ?thesis using yk by simp
  qed
  ultimately show ?thesis by simp
qed

lemma sorted_no_dups_insert:
  assumes "sorted_no_dups (d :: 'a::linorder list)"
  shows "sorted_no_dups (fst (String_Set_insert d x))"
proof -
  let ?n = "lower_bound (<) d x"
  have s: "sorted_wrt (<) d" using assms by (simp add: sorted_no_dups_def)
  show ?thesis
  proof (cases "?n \<noteq> length d \<and> d ! ?n = x")
    case True
    then show ?thesis using assms by (simp add: String_Set_insert_def Let_def)
  next
    case False
    have a: "\<forall>y\<in>set (drop ?n d). x < y"
      using sorted_lt_drop_lower_bound [OF s False] by blast
    have b: "\<forall>y\<in>set (take ?n d). y < x"
      unfolding take_lower_bound by (auto dest: set_takeWhileD)
    have c: "sorted_wrt (<) (take ?n d)" "sorted_wrt (<) (drop ?n d)"
      using s by (simp_all add: sorted_wrt_take sorted_wrt_drop)
    have "sorted_wrt (<) (take ?n d @ x # drop ?n d)"
      using a b c by (simp add: sorted_wrt_append) (metis order.strict_trans)
    then show ?thesis using False
      by (auto simp: String_Set_insert_def Let_def sorted_no_dups_def)
  qed
qed

lemma sorted_no_dups_insert_hint:
  assumes "sorted_no_dups (d :: 'a::linorder list)"
    and "String_Set_insert_hint d h x = Some (d', it)"
  shows "sorted_no_dups d'"
proof -
  have s: "sorted_wrt (<) d" using assms by (simp add: sorted_no_dups_def)
  have h: "h \<le> length d" using assms(2) by (simp add: String_Set_insert_hint_def split: if_splits)
  show ?thesis
  proof (cases "(h = length d \<or> x < d ! h) \<and> (h = 0 \<or> d ! (h - 1) < x)")
    case True
    then have d': "d' = take h d @ x # drop h d"
      using assms(2) h by (auto simp: String_Set_insert_hint_def)
    have a: "\<forall>y\<in>set (drop h d). x < y"
    proof
      fix y assume "y \<in> set (drop h d)"
      then obtain k where k: "k < length (drop h d)" "y = drop h d ! k"
        by (metis in_set_conv_nth)
      then have hl: "h < length d" and yk: "y = d ! (h + k)" and kk: "h + k < length d" by auto
      with True have "x < d ! h" by simp
      moreover have "d ! h \<le> y"
      proof (cases k)
        case 0 then show ?thesis using yk by simp
      next
        case (Suc k')
        then have "h < h + k" by simp
        with s kk have "d ! h < d ! (h + k)" by (simp add: sorted_wrt_nth_less)
        then show ?thesis using yk by simp
      qed
      ultimately show "x < y" by simp
    qed
    have b: "\<forall>y\<in>set (take h d). y < x"
    proof
      fix y assume "y \<in> set (take h d)"
      then obtain k where k: "k < length (take h d)" "y = take h d ! k"
        by (metis in_set_conv_nth)
      then have kh: "k < h" and yk: "y = d ! k" by auto
      with True have "d ! (h - 1) < x" by auto
      moreover have "y \<le> d ! (h - 1)"
      proof (cases "k = h - 1")
        case True then show ?thesis using yk by simp
      next
        case False
        with kh have "k < h - 1" "h - 1 < length d" using h by auto
        with s have "d ! k < d ! (h - 1)" by (simp add: sorted_wrt_nth_less)
        then show ?thesis using yk by simp
      qed
      ultimately show "y < x" by simp
    qed
    have c: "sorted_wrt (<) (take h d)" "sorted_wrt (<) (drop h d)"
      using s by (simp_all add: sorted_wrt_take sorted_wrt_drop)
    have "sorted_wrt (<) (take h d @ x # drop h d)"
      using a b c by (simp add: sorted_wrt_append) (metis order.strict_trans)
    then show ?thesis by (simp add: d' sorted_no_dups_def)
  next
    case False
    then have "d' = fst (String_Set_insert d x)"
      using assms(2) h by (auto simp: String_Set_insert_hint_def split: prod.splits if_splits)
    then show ?thesis using sorted_no_dups_insert [OF assms(1)] by simp
  qed
qed

lemma sorted_no_dups_erase:
  assumes "sorted_no_dups (d :: 'a::linorder list)"
  shows "sorted_no_dups (fst (String_Set_erase d x))"
  using assms
  by (auto simp: String_Set_erase_def sorted_no_dups_def sorted_wrt_less_remove split: option.splits)

lemma sorted_no_dups_apply:
  assumes "sorted_no_dups (d :: 'a::linorder list)" and "String_Set_apply p d = Some d'"
  shows "sorted_no_dups d'"
proof (cases p)
  case (Insert x)
  then show ?thesis using assms sorted_no_dups_insert [of d x] by auto
next
  case (Insert_Hint h x)
  then show ?thesis using assms sorted_no_dups_insert_hint [of d h x] by auto
next
  case (Insert_Str s)
  then show ?thesis using assms
    by (auto simp: String_Set_insert_str_def sorted_no_dups_sort_uniq)
next
  case (Plus_Eq s)
  then show ?thesis using assms
    by (auto simp: String_Set_plus_eq_def String_Set_insert_str_def sorted_no_dups_sort_uniq)
next
  case (Erase x)
  then show ?thesis using assms sorted_no_dups_erase [of d x] by auto
next
  case (Erase_At i)
  then show ?thesis using assms
    by (auto simp: String_Set_erase_at_def sorted_no_dups_def sorted_wrt_less_remove split: if_splits)
next
  case (Erase_Range i j)
  then show ?thesis using assms
    by (auto simp: String_Set_erase_range_def sorted_no_dups_def sorted_wrt_less_remove split: if_splits)
qed

text \<open>
  Claim C5.  A flag set is created by a constructor, which calls \<^verbatim>\<open>sort_uniq\<close>, and is
  then changed by a sequence of insert, union (\<^verbatim>\<open>operator+=\<close>, insert of a string) and
  erase calls.  After every such sequence the storage is in ascending order and holds no
  flag twice.
\<close>

theorem String_Set_sorted_no_dups:
  "sorted_no_dups (String_Set_of s) \<and>
   (\<forall>d d'. sorted_no_dups (d :: 'a::linorder list) \<longrightarrow> String_Set_run ps d = Some d' \<longrightarrow> sorted_no_dups d')"
proof (intro conjI allI impI)
  show "sorted_no_dups (String_Set_of s)"
    by (simp add: String_Set_of_def sorted_no_dups_sort_uniq)
next
  fix d d' :: "'a list"
  assume "sorted_no_dups d" "String_Set_run ps d = Some d'"
  then show "sorted_no_dups d'"
  proof (induction ps arbitrary: d)
    case Nil then show ?case by simp
  next
    case (Cons p ps)
    then show ?case by (auto split: option.splits dest: sorted_no_dups_apply)
  qed
qed



lemma find_char_insert_pos:
  assumes "x \<notin> set a"
  shows "find_char_from (a @ x # b) x 0 = Some (length a)"
  using assms by (auto simp: find_char_from_def find_from_Some nth_append)

lemma String_Set_contains_iff: "String_Set_contains d x \<longleftrightarrow> x \<in> set d"
  by (simp add: String_Set_contains_def find_char_def find_char_from_0_None)

lemma lower_bound_member:
  assumes s: "sorted_wrt (<) (d :: 'a::linorder list)" and x: "x \<in> set d"
  shows "lower_bound (<) d x \<noteq> length d \<and> d ! lower_bound (<) d x = x"
proof (rule ccontr)
  assume "\<not> ?thesis"
  then have "\<forall>y\<in>set (drop (lower_bound (<) d x) d). x < y"
    using sorted_lt_drop_lower_bound [OF s] by blast
  moreover have "\<forall>y\<in>set (take (lower_bound (<) d x) d). y < x"
    unfolding take_lower_bound by (auto dest: set_takeWhileD)
  moreover have "x \<in> set (take (lower_bound (<) d x) d) \<or> x \<in> set (drop (lower_bound (<) d x) d)"
    using x by (metis Un_iff append_take_drop_id set_append)
  ultimately show False by auto
qed

theorem String_Set_sorted_no_dups_witness:
  "sorted_no_dups (String_Set_of [3, 1, 3 :: flag]) \<and>
   String_Set_run [Insert 5, Insert_Str [9, 2, 5], Erase 2, Insert_Hint 0 1, Plus_Eq [7, 7],
     Erase_At 0, Erase_Range 1 2] (String_Set_of [3, 1, 3 :: flag]) = Some [3, 7, 9] \<and>
   sorted_no_dups [3, 7, 9 :: flag]"
proof -
  let ?ps = "[Insert 5, Insert_Str [9, 2, 5], Erase 2, Insert_Hint 0 1, Plus_Eq [7, 7],
     Erase_At 0, Erase_Range 1 2] :: flag String_Set_op list"
  have run: "String_Set_run ?ps (String_Set_of [3, 1, 3 :: flag]) = Some [3, 7, 9]"
    by code_simp
  from String_Set_sorted_no_dups [of "[3, 1, 3 :: flag]" ?ps] run
  show ?thesis by blast
qed

text \<open>
  Claim C6, as amended.  Inserting a flag and then erasing it gives the original flag set
  back when the flag was not in the set.  When the flag is already in the set the insert
  changes nothing and the erase removes the flag, so the result is the original set
  without that flag.
\<close>

theorem String_Set_insert_then_erase:
  assumes "sorted_no_dups (d :: 'a::linorder list)"
  shows "fst (String_Set_erase (fst (String_Set_insert d x)) x) =
         (if String_Set_contains d x then fst (String_Set_erase d x) else d)"
proof (cases "x \<in> set d")
  case True
  have s: "sorted_wrt (<) d" using assms by (simp add: sorted_no_dups_def)
  from lower_bound_member [OF s True] have "fst (String_Set_insert d x) = d"
    by (simp add: String_Set_insert_def Let_def)
  with True show ?thesis by (simp add: String_Set_contains_iff)
next
  case False
  let ?n = "lower_bound (<) d x"
  have ne: "\<not> (?n \<noteq> length d \<and> d ! ?n = x)"
    using False lower_bound_le [of "(<)" d x] by (metis le_neq_implies_less nth_mem)
  then have i: "fst (String_Set_insert d x) = take ?n d @ x # drop ?n d"
    by (auto simp: String_Set_insert_def Let_def)
  have "x \<notin> set (take ?n d)" using False by (meson in_set_takeD)
  then have "find_char (take ?n d @ x # drop ?n d) x = Some (length (take ?n d))"
    unfolding find_char_def by (rule find_char_insert_pos)
  moreover have "length (take ?n d) = ?n" using lower_bound_le [of "(<)" d x] by simp
  ultimately have "fst (String_Set_erase (take ?n d @ x # drop ?n d) x) = d"
    by (simp add: String_Set_erase_def)
  with i False show ?thesis by (simp add: String_Set_contains_iff)
qed

theorem String_Set_insert_then_erase_witness:
  "sorted_no_dups [1, 5 :: flag] \<and>
   fst (String_Set_erase (fst (String_Set_insert [1, 5 :: flag] 3)) 3) = [1, 5]"
proof -
  have s: "sorted_no_dups [1, 5 :: flag]" by (simp add: sorted_no_dups_def)
  have c: "\<not> String_Set_contains [1, 5 :: flag] 3"
    by (simp add: String_Set_contains_def find_char_def find_char_from_def)
  from String_Set_insert_then_erase [OF s, of 3] c s show ?thesis by simp
qed

text \<open>
  The claim as stated fails for a flag that the set already holds: the set \<open>{1}\<close> after
  inserting and erasing the flag 1 is empty.
\<close>

theorem String_Set_insert_then_erase_counterexample:
  "sorted_no_dups [1 :: flag] \<and>
   fst (String_Set_erase (fst (String_Set_insert [1 :: flag] 1)) 1) \<noteq> [1]"
  by (simp add: sorted_no_dups_def String_Set_insert_def String_Set_erase_def lower_bound_def
      find_char_def find_char_from_def)


section \<open>Dictionary: the public entry points\<close>








section \<open>Condition: the affix condition matcher\<close>

abbreviation LBRACKET :: wchar where "LBRACKET \<equiv> 91"
abbreviation RBRACKET :: wchar where "RBRACKET \<equiv> 93"
abbreviation FULLSTOP :: wchar where "FULLSTOP \<equiv> 46"
abbreviation CARET :: wchar where "CARET \<equiv> 94"

datatype Span_Type = NORMAL | DOT | ANY_OF | NONE_OF

datatype Span = Span (span_pos: nat) (span_len: nat) (span_type: Span_Type)

record Condition =
  cond :: wstring
  spans :: "Span list"
  cond_length :: nat

text \<open>The three messages with which \<^verbatim>\<open>construct\<close> throws a \<^verbatim>\<open>Condition_Exception\<close>.\<close>

datatype Condition_Exception =
    Closing_Without_Opening
  | Opening_Without_Closing
  | Empty_Bracket_Expression

text \<open>
  The loop of \<^verbatim>\<open>Condition::construct\<close>, from the position \<open>i\<close> with the spans and the
  length collected so far.  The last branch is the end of the loop body when the
  character at \<open>i\<close> is none of the three tested ones.
\<close>

function construct_loop ::
  "wstring \<Rightarrow> nat \<Rightarrow> Span list \<Rightarrow> nat \<Rightarrow> Condition_Exception + (Span list \<times> nat)" where
  "construct_loop c i sp n =
     (if i = length c then Inr (sp, n)
      else
        (case find_first_of c [LBRACKET, RBRACKET, FULLSTOP] i of
           None \<Rightarrow> Inr (sp @ [Span i (length c - i) NORMAL], n + (length c - i))
         | Some j \<Rightarrow>
             (let sp1 = (if i \<noteq> j then sp @ [Span i (j - i) NORMAL] else sp);
                  n1 = (if i \<noteq> j then n + (j - i) else n);
                  i1 = j
              in
              if c ! i1 = FULLSTOP then
                construct_loop c (i1 + 1) (sp1 @ [Span i1 1 DOT]) (n1 + 1)
              else if c ! i1 = RBRACKET then Inl Closing_Without_Opening
              else if c ! i1 = LBRACKET then
                (let i2 = i1 + 1 in
                 if i2 = length c then Inl Opening_Without_Closing
                 else
                   (let ty = (if c ! i2 = CARET then NONE_OF else ANY_OF);
                        i3 = (if c ! i2 = CARET then i2 + 1 else i2)
                    in
                    case find_char_from c RBRACKET i3 of
                      None \<Rightarrow> Inl Opening_Without_Closing
                    | Some j2 \<Rightarrow>
                        if j2 = i3 then Inl Empty_Bracket_Expression
                        else construct_loop c (j2 + 1) (sp1 @ [Span i3 (j2 - i3) ty]) (n1 + 1)))
              else construct_loop c i1 sp1 n1)))"
  by pat_completeness auto
termination
proof (relation "measure (\<lambda>(c, i, sp, n). length c - i)", goal_cases)
  case 1
  then show ?case by simp
next
  case (2 c i sp n j sp1 n1 i1)
  then show ?case by (auto simp: find_first_of_def find_from_Some)
next
  case (3 c i sp n j sp1 n1 i1 i2 ty i3 j2)
  from 3(2) have "i \<le> j" by (simp add: find_first_of_def find_from_Some)
  moreover from 3(13) have "i3 \<le> j2" "j2 < length c"
    by (simp_all add: find_char_from_def find_from_Some)
  moreover from 3(5,9) have "i2 = Suc j" by simp
  moreover from 3(12) have "i3 = i2 \<or> i3 = Suc i2" by (simp split: if_splits)
  ultimately show ?case by auto
next
  case (4 c i sp n j sp1 n1 i1)
  then show ?case by (auto simp: find_first_of_def find_from_Some)
qed

definition construct :: "wstring \<Rightarrow> Condition_Exception + Condition" where
  "construct condition =
     (case construct_loop condition 0 [] 0 of
        Inl e \<Rightarrow> Inl e
      | Inr (sp, n) \<Rightarrow> Inr \<lparr>cond = condition, spans = sp, cond_length = n\<rparr>)"


text \<open>
  \<^verbatim>\<open>Condition::match\<close>: the loop over the spans from position \<open>i\<close> of \<open>s\<close>.  The source
  compares and reads \<open>s\<close> through pointers; the test \<open>len \<noteq> length\<close> before the loop
  keeps the reads inside \<open>s\<close> for the spans that \<^verbatim>\<open>construct\<close> builds.
\<close>

fun match_spans :: "wstring \<Rightarrow> wstring \<Rightarrow> nat \<Rightarrow> Span list \<Rightarrow> bool" where
  "match_spans s c i [] = True"
| "match_spans s c i (x # xs) =
     (case span_type x of
        NORMAL \<Rightarrow>
          if take (span_len x) (drop i s) = take (span_len x) (drop (span_pos x) c)
          then match_spans s c (i + span_len x) xs else False
      | DOT \<Rightarrow> match_spans s c (i + 1) xs
      | ANY_OF \<Rightarrow>
          if s ! i \<in> set (take (span_len x) (drop (span_pos x) c))
          then match_spans s c (i + 1) xs else False
      | NONE_OF \<Rightarrow>
          if s ! i \<in> set (take (span_len x) (drop (span_pos x) c))
          then False else match_spans s c (i + 1) xs)"

datatype out_of_range = Out_Of_Range

definition Condition_match :: "Condition \<Rightarrow> wstring \<Rightarrow> nat \<Rightarrow> nat \<Rightarrow> out_of_range + bool" where
  "Condition_match cn s pos len =
     (if pos > length s then Inl Out_Of_Range
      else
        (let len1 = (if length s - pos < len then length s - pos else len) in
         if len1 \<noteq> cond_length cn then Inr False
         else Inr (match_spans s (cond cn) pos (spans cn))))"

definition match_prefix :: "Condition \<Rightarrow> wstring \<Rightarrow> out_of_range + bool" where
  "match_prefix cn s = Condition_match cn s 0 (cond_length cn)"

definition match_suffix :: "Condition \<Rightarrow> wstring \<Rightarrow> out_of_range + bool" where
  "match_suffix cn s =
     (if cond_length cn > length s then Inr False
      else Condition_match cn s (length s - cond_length cn) (cond_length cn))"

lemma match_prefix_no_throw: "match_prefix cn s \<noteq> Inl e"
  by (simp add: match_prefix_def Condition_match_def Let_def)

lemma match_suffix_no_throw: "match_suffix cn s \<noteq> Inl e"
  by (auto simp: match_suffix_def Condition_match_def Let_def)

declare construct_loop.simps [simp del]

text \<open>Two names for parts of the loop body, used in the proofs only: what the body does
  at a bracket or full stop, and what it does after an opening bracket.\<close>

definition construct_bracket ::
  "wstring \<Rightarrow> nat \<Rightarrow> Span list \<Rightarrow> nat \<Rightarrow> Condition_Exception + (Span list \<times> nat)" where
  "construct_bracket c i2 sp1 n1 =
     (if i2 = length c then Inl Opening_Without_Closing
      else
        (let ty = (if c ! i2 = CARET then NONE_OF else ANY_OF);
             i3 = (if c ! i2 = CARET then i2 + 1 else i2)
         in
         case find_char_from c RBRACKET i3 of
           None \<Rightarrow> Inl Opening_Without_Closing
         | Some j2 \<Rightarrow>
             if j2 = i3 then Inl Empty_Bracket_Expression
             else construct_loop c (j2 + 1) (sp1 @ [Span i3 (j2 - i3) ty]) (n1 + 1)))"

definition construct_special ::
  "wstring \<Rightarrow> nat \<Rightarrow> Span list \<Rightarrow> nat \<Rightarrow> Condition_Exception + (Span list \<times> nat)" where
  "construct_special c i1 sp1 n1 =
     (if c ! i1 = FULLSTOP then construct_loop c (i1 + 1) (sp1 @ [Span i1 1 DOT]) (n1 + 1)
      else if c ! i1 = RBRACKET then Inl Closing_Without_Opening
      else if c ! i1 = LBRACKET then construct_bracket c (i1 + 1) sp1 n1
      else construct_loop c i1 sp1 n1)"

lemma construct_loop_unfold:
  "construct_loop c i sp n =
     (if i = length c then Inr (sp, n)
      else
        (case find_first_of c [LBRACKET, RBRACKET, FULLSTOP] i of
           None \<Rightarrow> Inr (sp @ [Span i (length c - i) NORMAL], n + (length c - i))
         | Some j \<Rightarrow>
             construct_special c j (if i \<noteq> j then sp @ [Span i (j - i) NORMAL] else sp)
               (if i \<noteq> j then n + (j - i) else n)))"
  by (subst construct_loop.simps) (simp only: construct_special_def construct_bracket_def Let_def)

definition lift_acc ::
  "Span list \<Rightarrow> nat \<Rightarrow> Condition_Exception + (Span list \<times> nat) \<Rightarrow>
   Condition_Exception + (Span list \<times> nat)" where
  "lift_acc sp n r = (case r of Inl e \<Rightarrow> Inl e | Inr (sp', n') \<Rightarrow> Inr (sp @ sp', n + n'))"

lemma lift_acc_simps [simp]:
  "lift_acc sp n (Inl e) = Inl e"
  "lift_acc sp n (Inr (sp', n')) = Inr (sp @ sp', n + n')"
  by (simp_all add: lift_acc_def)

lemma lift_acc_lift_acc: "lift_acc sp n (lift_acc sp' n' r) = lift_acc (sp @ sp') (n + n') r"
  by (cases r) (auto simp: lift_acc_def)

lemma construct_special_acc:
  assumes rec: "\<And>i' sp' n'. j < i' \<Longrightarrow> i' \<le> length c \<Longrightarrow>
      construct_loop c i' sp' n' = lift_acc sp' n' (construct_loop c i' [] 0)"
    and j: "j < length c"
    and sp: "c ! j \<in> {LBRACKET, RBRACKET, FULLSTOP}"
  shows "construct_special c j sp n = lift_acc sp n (construct_special c j [] 0)"
proof -
  have r_snoc: "construct_loop c i' (sp' @ [a]) n' = lift_acc (sp' @ [a]) n' (construct_loop c i' [] 0)"
    if "j < i'" "i' \<le> length c" for i' sp' n' a
    using rec [OF that] .
  have r_single: "construct_loop c i' [a] n' = lift_acc [a] n' (construct_loop c i' [] 0)"
    if "j < i'" "i' \<le> length c" for i' n' a
    using rec [OF that] .
  consider (dot) "c ! j = FULLSTOP" | (rb) "c ! j = RBRACKET" | (lb) "c ! j = LBRACKET"
    using sp by auto
  then show ?thesis
  proof cases
    case dot
    show ?thesis using dot j
      by (simp add: construct_special_def r_snoc r_single lift_acc_lift_acc)
  next
    case rb
    then show ?thesis by (simp add: construct_special_def)
  next
    case lb
    define i3 where "i3 = (if c ! (Suc j) = CARET then Suc (Suc j) else j + 1)"
    define ty where "ty = (if c ! (Suc j) = CARET then NONE_OF else ANY_OF)"
    have br: "construct_bracket c (Suc j) sp' n' =
       (if Suc j = length c then Inl Opening_Without_Closing
        else case find_char_from c RBRACKET i3 of
           None \<Rightarrow> Inl Opening_Without_Closing
         | Some j2 \<Rightarrow>
             if j2 = i3 then Inl Empty_Bracket_Expression
             else construct_loop c (j2 + 1) (sp' @ [Span i3 (j2 - i3) ty]) (n' + 1))" for sp' n'
      by (auto simp: construct_bracket_def Let_def i3_def ty_def split: option.splits)
    have "construct_bracket c (Suc j) sp n = lift_acc sp n (construct_bracket c (Suc j) [] 0)"
    proof (cases "Suc j = length c")
      case True
      then show ?thesis unfolding br by simp
    next
      case nl: False
      show ?thesis
      proof (cases "find_char_from c RBRACKET i3")
        case None
        then show ?thesis unfolding br using nl by simp
      next
        case (Some j2)
        then have j2: "i3 \<le> j2" "j2 < length c"
          by (auto simp: find_char_from_def find_from_Some)
        have jj: "j < j2 + 1" "j2 + 1 \<le> length c"
          using j2 by (auto simp: i3_def split: if_splits)
        have jj': "j < Suc j2" "Suc j2 \<le> length c" using jj by simp_all
        show ?thesis unfolding br using Some nl jj'
          by (simp add: r_snoc r_single lift_acc_lift_acc)
      qed
    qed
    then show ?thesis using lb by (simp add: construct_special_def)
  qed
qed

lemma construct_loop_acc:
  "construct_loop c i sp n = lift_acc sp n (construct_loop c i [] 0)"
proof (induction "length c - i" arbitrary: i sp n rule: less_induct)
  case less
  note IH = less [rule_format]
  show ?case
  proof (cases "i = length c")
    case True
    then show ?thesis by (simp add: construct_loop_unfold [of c "length c"])
  next
    case ne: False
    show ?thesis
    proof (cases "find_first_of c [LBRACKET, RBRACKET, FULLSTOP] i")
      case None
      with ne show ?thesis by (simp add: construct_loop_unfold [of c i])
    next
      case (Some j)
      then have j: "i \<le> j" "j < length c" "c ! j \<in> {LBRACKET, RBRACKET, FULLSTOP}"
        by (auto simp: find_first_of_def find_from_Some)
      have rec: "construct_loop c i' sp' n' = lift_acc sp' n' (construct_loop c i' [] 0)"
        if "j < i'" "i' \<le> length c" for i' sp' n'
        using that j ne IH [of i' sp' n'] by simp
      note sa = construct_special_acc [OF rec j(2) j(3)]
      have "construct_special c j sp' n' = lift_acc sp' n' (construct_special c j [] 0)" for sp' n'
        by (rule sa)
      then have e: "construct_special c j (sp @ a) (n + b) = lift_acc sp n (construct_special c j a b)" for a b
        by (metis lift_acc_lift_acc)
      show ?thesis
      proof (cases "i = j")
        case True
        then show ?thesis using ne Some e [of "[]" 0]
          by (simp add: construct_loop_unfold [of c j])
      next
        case False
        then show ?thesis using ne Some e [of "[Span i (j - i) NORMAL]" "j - i"]
          by (simp add: construct_loop_unfold [of c i])
      qed
    qed
  qed
qed


definition construct_error :: "wstring \<Rightarrow> nat \<Rightarrow> Condition_Exception option" where
  "construct_error c i = (case construct_loop c i [] 0 of Inl e \<Rightarrow> Some e | Inr _ \<Rightarrow> None)"

definition err_of :: "Condition_Exception + 'a \<Rightarrow> Condition_Exception option" where
  "err_of r = (case r of Inl e \<Rightarrow> Some e | Inr _ \<Rightarrow> None)"

lemma err_of_simps [simp]: "err_of (Inl e) = Some e" "err_of (Inr x) = None"
  by (simp_all add: err_of_def)

lemma err_of_lift_acc [simp]: "err_of (lift_acc sp n r) = err_of r"
  by (cases r) (auto simp: lift_acc_def)

lemma construct_error_eq: "construct_error c i = err_of (construct_loop c i [] 0)"
  by (simp add: construct_error_def err_of_def)

lemma err_of_construct_loop: "err_of (construct_loop c i sp n) = construct_error c i"
  by (subst construct_loop_acc) (simp add: construct_error_eq)

lemma construct_special_acc':
  assumes "j < length c" "c ! j \<in> {LBRACKET, RBRACKET, FULLSTOP}"
  shows "err_of (construct_special c j sp n) = err_of (construct_special c j [] 0)"
  by (subst construct_special_acc [OF construct_loop_acc assms]) simp

definition bracket_error :: "wstring \<Rightarrow> nat \<Rightarrow> Condition_Exception option" where
  "bracket_error c i2 =
     (if i2 = length c then Some Opening_Without_Closing
      else
        (let i3 = (if c ! i2 = CARET then Suc i2 else i2) in
         case find_char_from c RBRACKET i3 of
           None \<Rightarrow> Some Opening_Without_Closing
         | Some j2 \<Rightarrow>
             if j2 = i3 then Some Empty_Bracket_Expression else construct_error c (Suc j2)))"

lemma err_of_construct_bracket: "err_of (construct_bracket c i2 sp n) = bracket_error c i2"
  by (auto simp: construct_bracket_def bracket_error_def Let_def err_of_construct_loop
      split: option.splits)

lemma construct_error_end: "construct_error c (length c) = None"
  by (simp add: construct_error_eq construct_loop_unfold [of c "length c"])

lemma construct_error_special:
  assumes "i < length c" "c ! i \<in> {LBRACKET, RBRACKET, FULLSTOP}"
  shows "construct_error c i =
     (if c ! i = FULLSTOP then construct_error c (Suc i)
      else if c ! i = RBRACKET then Some Closing_Without_Opening
      else bracket_error c (Suc i))"
proof -
  have "find_first_of c [LBRACKET, RBRACKET, FULLSTOP] i = Some i"
    using assms by (auto simp: find_first_of_def find_from_Some)
  then have "construct_error c i = err_of (construct_special c i [] 0)"
    using assms by (simp add: construct_error_eq construct_loop_unfold [of c i])
  also have "\<dots> = (if c ! i = FULLSTOP then construct_error c (Suc i)
      else if c ! i = RBRACKET then Some Closing_Without_Opening
      else bracket_error c (Suc i))"
    using assms(2)
    by (auto simp: construct_special_def err_of_construct_loop err_of_construct_bracket)
  finally show ?thesis .
qed

lemma construct_error_literal:
  assumes i: "i < length c" and lit: "c ! i \<notin> {LBRACKET, RBRACKET, FULLSTOP}"
  shows "construct_error c i = construct_error c (Suc i)"
proof (cases "find_first_of c [LBRACKET, RBRACKET, FULLSTOP] i")
  case None
  then have a: "construct_error c i = None"
    using i by (simp add: construct_error_eq construct_loop_unfold [of c i])
  have "find_first_of c [LBRACKET, RBRACKET, FULLSTOP] (Suc i) = None"
    using None by (auto simp: find_first_of_def find_from_None)
  then have "construct_error c (Suc i) = None"
    by (simp add: construct_error_eq construct_loop_unfold [of c "Suc i"])
  with a show ?thesis by simp
next
  case (Some j)
  then have j: "i \<le> j" "j < length c" "c ! j \<in> {LBRACKET, RBRACKET, FULLSTOP}"
    and m: "\<forall>k. i \<le> k \<and> k < j \<longrightarrow> c ! k \<notin> {LBRACKET, RBRACKET, FULLSTOP}"
    by (auto simp: find_first_of_def find_from_Some)
  from j lit have ij: "i \<noteq> j" by auto
  with j have sj: "Suc i \<le> j" "Suc i \<noteq> length c" by auto
  have "construct_error c i = err_of (construct_special c j [Span i (j - i) NORMAL] (j - i))"
    using Some i ij by (simp add: construct_error_eq construct_loop_unfold [of c i])
  also have "\<dots> = err_of (construct_special c j [] 0)"
    by (rule construct_special_acc' [OF j(2) j(3)])
  finally have a: "construct_error c i = err_of (construct_special c j [] 0)" .
  have f: "find_first_of c [LBRACKET, RBRACKET, FULLSTOP] (Suc i) = Some j"
    using j m sj by (auto simp: find_first_of_def find_from_Some)
  have "construct_error c (Suc i) =
      err_of (construct_special c j (if Suc i \<noteq> j then [Span (Suc i) (j - Suc i) NORMAL] else [])
         (if Suc i \<noteq> j then j - Suc i else 0))"
    using f sj by (simp add: construct_error_eq construct_loop_unfold [of c "Suc i"])
  also have "\<dots> = err_of (construct_special c j [] 0)"
    by (rule construct_special_acc' [OF j(2) j(3)])
  finally show ?thesis using a by simp
qed


text \<open>
  The patterns the specification calls well formed: a sequence of literal characters,
  full stops, and bracket classes \<open>[...]\<close> or \<open>[^...]\<close> with at least one character
  between the brackets.  A class ends at the first closing bracket after its start.
\<close>

inductive wf_pattern :: "wstring \<Rightarrow> bool" where
  wf_empty: "wf_pattern []"
| wf_literal: "a \<notin> {LBRACKET, RBRACKET, FULLSTOP} \<Longrightarrow> wf_pattern r \<Longrightarrow> wf_pattern (a # r)"
| wf_dot: "wf_pattern r \<Longrightarrow> wf_pattern (FULLSTOP # r)"
| wf_any_of: "cs \<noteq> [] \<Longrightarrow> hd cs \<noteq> CARET \<Longrightarrow> RBRACKET \<notin> set cs \<Longrightarrow> wf_pattern r \<Longrightarrow>
     wf_pattern (LBRACKET # cs @ RBRACKET # r)"
| wf_none_of: "cs \<noteq> [] \<Longrightarrow> RBRACKET \<notin> set cs \<Longrightarrow> wf_pattern r \<Longrightarrow>
     wf_pattern (LBRACKET # CARET # cs @ RBRACKET # r)"

lemma drop_eq_ConsD:
  assumes "drop i c = a # r"
  shows "i < length c" "c ! i = a" "drop (Suc i) c = r"
proof -
  show i: "i < length c" using assms by (metis drop_all list.distinct(1) not_le)
  from Cons_nth_drop_Suc [OF i] assms show "c ! i = a" "drop (Suc i) c = r" by auto
qed

lemma drop_eq_appendD:
  assumes "drop i c = p @ r"
  shows "p @ r \<noteq> [] \<Longrightarrow> i + length p \<le> length c" "drop (i + length p) c = r"
    "\<forall>m < length p. c ! (i + m) = p ! m"
proof -
  have l: "length (drop i c) = length p + length r" using assms by simp
  show "i + length p \<le> length c" if "p @ r \<noteq> []"
    using that l by (cases "i \<le> length c") auto
  have "drop (i + length p) c = drop (length p) (drop i c)" by (simp add: add.commute)
  then show "drop (i + length p) c = r" using assms by simp
  show "\<forall>m < length p. c ! (i + m) = p ! m"
  proof (intro allI impI)
    fix m assume m: "m < length p"
    with l have "i \<le> length c" by (cases "i \<le> length c") auto
    then have "c ! (i + m) = drop i c ! m" by simp
    then show "c ! (i + m) = p ! m" using assms m by (simp add: nth_append)
  qed
qed

lemma find_char_from_drop:
  assumes d: "drop k c = cs @ x # rest" and n: "x \<notin> set cs"
  shows "find_char_from c x k = Some (k + length cs)"
proof -
  from drop_eq_appendD [OF d] have dr: "drop (k + length cs) c = x # rest"
    and el: "\<forall>m < length cs. c ! (k + m) = cs ! m" by auto
  from drop_eq_ConsD [OF dr] have a: "k + length cs < length c" "c ! (k + length cs) = x" by auto
  have "c ! j \<noteq> x" if "k \<le> j" "j < k + length cs" for j
  proof -
    from that obtain m where m: "j = k + m" "m < length cs"
      by (metis add_diff_inverse_nat less_diff_conv2 not_less add.commute)
    with el have "c ! j = cs ! m" by simp
    with n m show ?thesis by (metis nth_mem)
  qed
  with a show ?thesis by (auto simp: find_char_from_def find_from_Some)
qed

lemma construct_error_skip:
  assumes "wf_pattern p" "drop i c = p @ x"
  shows "construct_error c i = construct_error c (i + length p)"
  using assms
proof (induction p arbitrary: i rule: wf_pattern.induct)
  case wf_empty
  then show ?case by simp
next
  case (wf_literal a r)
  from wf_literal.prems have d: "drop i c = a # (r @ x)" by simp
  from drop_eq_ConsD [OF d] have i: "i < length c" "c ! i = a" "drop (Suc i) c = r @ x" by auto
  have "construct_error c i = construct_error c (Suc i)"
    using construct_error_literal [OF i(1)] wf_literal.hyps(1) i(2) by simp
  also have "\<dots> = construct_error c (Suc i + length r)" by (rule wf_literal.IH [OF i(3)])
  finally show ?case by simp
next
  case (wf_dot r)
  from wf_dot.prems have d: "drop i c = FULLSTOP # (r @ x)" by simp
  from drop_eq_ConsD [OF d] have i: "i < length c" "c ! i = FULLSTOP" "drop (Suc i) c = r @ x" by auto
  have "construct_error c i = construct_error c (Suc i)"
    using construct_error_special [OF i(1)] i(2) by simp
  also have "\<dots> = construct_error c (Suc i + length r)" by (rule wf_dot.IH [OF i(3)])
  finally show ?case by simp
next
  case (wf_any_of cs r)
  from wf_any_of.prems have d: "drop i c = LBRACKET # (cs @ RBRACKET # (r @ x))" by simp
  from drop_eq_ConsD [OF d] have i: "i < length c" "c ! i = LBRACKET"
    and d1: "drop (Suc i) c = cs @ RBRACKET # (r @ x)" by auto
  from wf_any_of.hyps(1) obtain a cs' where cs: "cs = a # cs'" by (cases cs) auto
  from d1 cs have "drop (Suc i) c = a # (cs' @ RBRACKET # (r @ x))" by simp
  from drop_eq_ConsD [OF this] have si: "Suc i < length c" "c ! Suc i = a" by auto
  with cs wf_any_of.hyps(2) have nc: "c ! Suc i \<noteq> CARET" by simp
  have f: "find_char_from c RBRACKET (Suc i) = Some (Suc i + length cs)"
    by (rule find_char_from_drop [OF d1 wf_any_of.hyps(3)])
  have d2: "drop (Suc (Suc i + length cs)) c = r @ x"
    using drop_eq_appendD(2) [of "Suc i" c "cs @ [RBRACKET]" "r @ x"] d1 by simp
  have "construct_error c i = bracket_error c (Suc i)"
    using construct_error_special [OF i(1)] i(2) by simp
  also have "\<dots> = construct_error c (Suc (Suc i + length cs))"
    using si nc f cs by (simp add: bracket_error_def)
  also have "\<dots> = construct_error c (Suc (Suc i + length cs) + length r)"
    by (rule wf_any_of.IH [OF d2])
  finally show ?case by (simp add: add.assoc)
next
  case (wf_none_of cs r)
  from wf_none_of.prems have d: "drop i c = LBRACKET # (CARET # (cs @ RBRACKET # (r @ x)))" by simp
  from drop_eq_ConsD [OF d] have i: "i < length c" "c ! i = LBRACKET"
    and d0: "drop (Suc i) c = CARET # (cs @ RBRACKET # (r @ x))" by auto
  from drop_eq_ConsD [OF d0] have si: "Suc i < length c" "c ! Suc i = CARET"
    and d1: "drop (Suc (Suc i)) c = cs @ RBRACKET # (r @ x)" by auto
  have f: "find_char_from c RBRACKET (Suc (Suc i)) = Some (Suc (Suc i) + length cs)"
    by (rule find_char_from_drop [OF d1 wf_none_of.hyps(2)])
  have d2: "drop (Suc (Suc (Suc i) + length cs)) c = r @ x"
    using drop_eq_appendD(2) [of "Suc (Suc i)" c "cs @ [RBRACKET]" "r @ x"] d1 by simp
  have "construct_error c i = bracket_error c (Suc i)"
    using construct_error_special [OF i(1)] i(2) by simp
  also have "\<dots> = construct_error c (Suc (Suc (Suc i) + length cs))"
    using si f wf_none_of.hyps(1) by (simp add: bracket_error_def)
  also have "\<dots> = construct_error c (Suc (Suc (Suc i) + length cs) + length r)"
    by (rule wf_none_of.IH [OF d2])
  finally show ?case by (simp add: add.assoc)
qed

lemma construct_error_None_wf:
  assumes "construct_error c i = None" "i \<le> length c"
  shows "wf_pattern (drop i c)"
  using assms
proof (induction "length c - i" arbitrary: i rule: less_induct)
  case less
  show ?case
  proof (cases "i = length c")
    case True
    then show ?thesis by (simp add: wf_empty)
  next
    case False
    with less.prems have i: "i < length c" by simp
    then have d: "drop i c = c ! i # drop (Suc i) c" by (simp add: Cons_nth_drop_Suc)
    show ?thesis
    proof (cases "c ! i \<in> {LBRACKET, RBRACKET, FULLSTOP}")
      case lit: False
      with construct_error_literal [OF i] less.prems have "construct_error c (Suc i) = None" by simp
      with less.hyps [of "Suc i"] i have "wf_pattern (drop (Suc i) c)" by simp
      with lit d show ?thesis by (simp add: wf_literal)
    next
      case True
      note sp = construct_error_special [OF i True]
      consider (dot) "c ! i = FULLSTOP" | (rb) "c ! i = RBRACKET" | (lb) "c ! i = LBRACKET"
        using True by auto
      then show ?thesis
      proof cases
        case dot
        with sp less.prems have "construct_error c (Suc i) = None" by simp
        with less.hyps [of "Suc i"] i have "wf_pattern (drop (Suc i) c)" by simp
        with dot d show ?thesis by (simp add: wf_dot)
      next
        case rb
        with sp less.prems show ?thesis by simp
      next
        case lb
        with sp less.prems have be: "bracket_error c (Suc i) = None" by simp
        then have si: "Suc i < length c" using i by (auto simp: bracket_error_def split: if_splits)
        define i3 where "i3 = (if c ! Suc i = CARET then Suc (Suc i) else Suc i)"
        from be si obtain j2 where f: "find_char_from c RBRACKET i3 = Some j2"
          and ne: "j2 \<noteq> i3" and ce: "construct_error c (Suc j2) = None"
          by (auto simp: bracket_error_def i3_def Let_def split: if_splits option.splits)
        from f have j2: "i3 \<le> j2" "j2 < length c" "c ! j2 = RBRACKET"
          and m: "\<forall>k. i3 \<le> k \<and> k < j2 \<longrightarrow> c ! k \<noteq> RBRACKET"
          by (auto simp: find_char_from_def find_from_Some)
        have "Suc i \<le> i3" by (simp add: i3_def)
        with j2 have "length c - Suc j2 < length c - i" by simp
        with less.hyps [of "Suc j2"] ce j2 have w: "wf_pattern (drop (Suc j2) c)" by simp
        define cs where "cs = take (j2 - i3) (drop i3 c)"
        have lcs: "length cs = j2 - i3" using j2 by (simp add: cs_def)
        have csne: "cs \<noteq> []" using ne j2 lcs by auto
        have d3: "drop i3 c = cs @ RBRACKET # drop (Suc j2) c"
        proof -
          have "drop i3 c = cs @ drop (j2 - i3) (drop i3 c)"
            by (simp only: cs_def append_take_drop_id)
          also have "drop (j2 - i3) (drop i3 c) = drop j2 c" using j2 by simp
          also have "\<dots> = RBRACKET # drop (Suc j2) c"
            using j2 by (metis Cons_nth_drop_Suc)
          finally show ?thesis .
        qed
        have nin: "RBRACKET \<notin> set cs"
        proof
          assume "RBRACKET \<in> set cs"
          then obtain k where k: "k < length cs" "cs ! k = RBRACKET" by (metis in_set_conv_nth)
          then have "c ! (i3 + k) = RBRACKET" using j2 lcs by (simp add: cs_def)
          moreover have "i3 \<le> i3 + k" "i3 + k < j2" using k lcs by auto
          ultimately show False using m by blast
        qed
        show ?thesis
        proof (cases "c ! Suc i = CARET")
          case True
          then have "i3 = Suc (Suc i)" by (simp add: i3_def)
          with d3 have "drop (Suc i) c = CARET # cs @ RBRACKET # drop (Suc j2) c"
            using True si by (metis Cons_nth_drop_Suc)
          with d lb have "drop i c = LBRACKET # CARET # cs @ RBRACKET # drop (Suc j2) c" by simp
          then show ?thesis using wf_none_of [OF csne nin w] by simp
        next
          case False
          then have i3: "i3 = Suc i" by (simp add: i3_def)
          have "hd cs = c ! Suc i" using csne d3 i3 si
            by (metis Cons_nth_drop_Suc hd_append2 list.sel(1))
          with False have h: "hd cs \<noteq> CARET" by simp
          from d lb d3 i3 have "drop i c = LBRACKET # cs @ RBRACKET # drop (Suc j2) c" by simp
          then show ?thesis using wf_any_of [OF csne h nin w] by simp
        qed
      qed
    qed
  qed
qed


lemma construct_Inl_iff: "construct c = Inl e \<longleftrightarrow> construct_error c 0 = Some e"
  by (auto simp: construct_def construct_error_def split: sum.splits)

lemma construct_Inr_iff: "(\<exists>cn. construct c = Inr cn) \<longleftrightarrow> construct_error c 0 = None"
  by (auto simp: construct_def construct_error_def split: sum.splits)

lemma construct_error_after_wf:
  assumes "wf_pattern p"
  shows "construct_error (p @ x) 0 = construct_error (p @ x) (length p)"
  using construct_error_skip [OF assms, of 0 "p @ x" x] by simp

lemma construct_wf_iff: "wf_pattern c \<longleftrightarrow> (\<exists>cn. construct c = Inr cn)"
proof
  assume "wf_pattern c"
  from construct_error_after_wf [OF this, of "[]"] show "\<exists>cn. construct c = Inr cn"
    by (simp add: construct_Inr_iff construct_error_end)
next
  assume "\<exists>cn. construct c = Inr cn"
  then have "construct_error c 0 = None" by (simp add: construct_Inr_iff)
  from construct_error_None_wf [OF this] show "wf_pattern c" by simp
qed

lemma construct_closing:
  assumes "wf_pattern p"
  shows "construct (p @ RBRACKET # r) = Inl Closing_Without_Opening"
proof -
  let ?c = "p @ RBRACKET # r"
  have "construct_error ?c (length p) = Some Closing_Without_Opening"
    using construct_error_special [of "length p" ?c] by simp
  with construct_error_after_wf [OF assms, of "RBRACKET # r"] show ?thesis
    by (simp add: construct_Inl_iff)
qed

lemma construct_opening:
  assumes "wf_pattern p" "RBRACKET \<notin> set r"
  shows "construct (p @ LBRACKET # r) = Inl Opening_Without_Closing"
proof -
  let ?c = "p @ LBRACKET # r"
  have n: "find_char_from ?c RBRACKET k = None" if "length p < k" for k
  proof -
    have "?c ! j \<noteq> RBRACKET" if "k \<le> j" "j < length ?c" for j
    proof -
      from that \<open>length p < k\<close> have e: "j - length p = Suc (j - Suc (length p))" by arith
      from that \<open>length p < k\<close> have "?c ! j = r ! (j - Suc (length p))" "j - Suc (length p) < length r"
        by (simp_all add: nth_append e)
      with assms(2) show ?thesis by (metis nth_mem)
    qed
    then show ?thesis by (auto simp: find_char_from_def find_from_None)
  qed
  have "bracket_error ?c (Suc (length p)) = Some Opening_Without_Closing"
    by (simp add: bracket_error_def n Let_def)
  then have "construct_error ?c (length p) = Some Opening_Without_Closing"
    using construct_error_special [of "length p" ?c] by simp
  with construct_error_after_wf [OF assms(1), of "LBRACKET # r"] show ?thesis
    by (simp add: construct_Inl_iff)
qed

lemma construct_empty_any_of:
  assumes "wf_pattern p"
  shows "construct (p @ LBRACKET # RBRACKET # r) = Inl Empty_Bracket_Expression"
proof -
  let ?c = "p @ LBRACKET # RBRACKET # r"
  have d: "drop (Suc (length p)) ?c = [] @ RBRACKET # r" by simp
  have f: "find_char_from ?c RBRACKET (Suc (length p)) = Some (Suc (length p))"
    using find_char_from_drop [OF d] by simp
  have "bracket_error ?c (Suc (length p)) = Some Empty_Bracket_Expression"
    by (simp add: bracket_error_def f Let_def nth_append)
  then have "construct_error ?c (length p) = Some Empty_Bracket_Expression"
    using construct_error_special [of "length p" ?c] by simp
  with construct_error_after_wf [OF assms(1), of "LBRACKET # RBRACKET # r"] show ?thesis
    by (simp add: construct_Inl_iff)
qed

lemma construct_empty_none_of:
  assumes "wf_pattern p"
  shows "construct (p @ LBRACKET # CARET # RBRACKET # r) = Inl Empty_Bracket_Expression"
proof -
  let ?c = "p @ LBRACKET # CARET # RBRACKET # r"
  have d: "drop (Suc (Suc (length p))) ?c = [] @ RBRACKET # r" by simp
  have f: "find_char_from ?c RBRACKET (Suc (Suc (length p))) = Some (Suc (Suc (length p)))"
    using find_char_from_drop [OF d] by simp
  have "bracket_error ?c (Suc (length p)) = Some Empty_Bracket_Expression"
    by (simp add: bracket_error_def f Let_def nth_append)
  then have "construct_error ?c (length p) = Some Empty_Bracket_Expression"
    using construct_error_special [of "length p" ?c] by simp
  with construct_error_after_wf [OF assms(1), of "LBRACKET # CARET # RBRACKET # r"] show ?thesis
    by (simp add: construct_Inl_iff)
qed

text \<open>
  Claim C8.  Constructing a Condition succeeds exactly for the well-formed patterns, and
  it throws for each kind of malformed pattern: a closing bracket with no opening bracket
  before it (after a well-formed prefix), an opening bracket with no closing bracket after
  it, and an empty bracket class, \<open>[]\<close> or \<open>[^]\<close>.
\<close>

theorem Condition_construct_rejects_malformed:
  "(wf_pattern c \<longleftrightarrow> (\<exists>cn. construct c = Inr cn)) \<and>
   (wf_pattern p \<longrightarrow> construct (p @ RBRACKET # r) = Inl Closing_Without_Opening) \<and>
   (wf_pattern p \<and> RBRACKET \<notin> set r \<longrightarrow>
      construct (p @ LBRACKET # r) = Inl Opening_Without_Closing) \<and>
   (wf_pattern p \<longrightarrow>
      construct (p @ LBRACKET # RBRACKET # r) = Inl Empty_Bracket_Expression \<and>
      construct (p @ LBRACKET # CARET # RBRACKET # r) = Inl Empty_Bracket_Expression)"
  using construct_wf_iff construct_closing construct_opening construct_empty_any_of
    construct_empty_none_of by blast

theorem Condition_construct_rejects_malformed_witness:
  "wf_pattern (wstr ''a.[^bc]'') \<and>
   (\<exists>cn. construct (wstr ''a.[^bc]'') = Inr cn) \<and>
   construct (wstr ''a.[^bc]'' @ RBRACKET # wstr ''d'') = Inl Closing_Without_Opening \<and>
   RBRACKET \<notin> set (wstr ''d'') \<and>
   construct (wstr ''a.[^bc]'' @ LBRACKET # wstr ''d'') = Inl Opening_Without_Closing \<and>
   construct (wstr ''a.[^bc]'' @ LBRACKET # RBRACKET # wstr ''d'') = Inl Empty_Bracket_Expression \<and>
   construct (wstr ''a.[^bc]'' @ LBRACKET # CARET # RBRACKET # wstr ''d'') = Inl Empty_Bracket_Expression"
proof -
  have "wf_pattern (LBRACKET # CARET # [98, 99] @ RBRACKET # [])"
    by (rule wf_none_of) (simp_all add: wf_empty)
  then have "wf_pattern (FULLSTOP # LBRACKET # CARET # [98, 99] @ RBRACKET # [])"
    by (rule wf_dot)
  then have "wf_pattern (97 # FULLSTOP # LBRACKET # CARET # [98, 99] @ RBRACKET # [])"
    by (rule wf_literal [rotated]) simp
  then have w: "wf_pattern (wstr ''a.[^bc]'')" by (simp add: wstr_def)
  have n: "RBRACKET \<notin> set (wstr ''d'')" by (simp add: wstr_def)
  from Condition_construct_rejects_malformed [of "wstr ''a.[^bc]''" "wstr ''a.[^bc]''" "wstr ''d''"] w n
  show ?thesis by blast
qed


section \<open>Prefix\_Multiset: the affix index\<close>



text \<open>The entries from offset \<open>a\<close> up to offset \<open>b\<close> of the table.\<close>

definition table_range :: "'a list \<Rightarrow> nat \<Rightarrow> nat \<Rightarrow> 'a list" where
  "table_range t a b = drop a (take b t)"














subsection \<open>Sorted ranges\<close>



lemma table_range_Cons_Suc [simp]: "table_range (a # xs) (Suc m) (Suc n) = table_range xs m n"
  by (simp add: table_range_def)

lemma table_range_0 [simp]: "table_range xs 0 n = take n xs"
  by (simp add: table_range_def)



subsection \<open>The lexicographic order of the keys\<close>






subsection \<open>The narrowing loop\<close>













subsection \<open>The first-letter index\<close>






subsection \<open>What the constructor establishes\<close>












subsection \<open>The iterator\<close>
























end
